theory Spec2Isabelle
  imports Main "HOL-Library.Word" "HOL-Library.Sublist"
begin

section \<open>The mlocate.db reader (mlocate\_reader.py)\<close>

subsection \<open>Data\<close>

text \<open>
  The file content is a Python \<open>bytes\<close> object: a list of 8-bit words. A Python
  \<open>str\<close> is a sequence of Unicode code points, here a list of naturals. Positions and
  the configuration size are Python integers that never go negative: naturals.
\<close>

type_synonym byte = "8 word"
type_synonym bytes = "byte list"
type_synonym codepoint = nat
type_synonym str = "codepoint list"

text \<open>A string literal of the source, as code points.\<close>

definition lit :: "string \<Rightarrow> str" where
  "lit s = map of_char s"

text \<open>
  The ways the two functions stop without returning: \<open>sys.exit(1)\<close>, and the uncaught
  exceptions of the operations they use (\<open>struct.error\<close> of \<open>struct.unpack\<close>,
  \<open>IndexError\<close> of \<open>data[pos]\<close>, \<open>ValueError\<close> of \<open>data.index\<close>, \<open>re.error\<close> of
  \<open>re.compile\<close>). None of the exceptions carries a position.
\<close>

datatype error = SystemExit int | StructError | IndexError | ValueError | ReError

definition MLOCATE_MAGIC :: bytes where
  "MLOCATE_MAGIC = [0x00, 0x6d, 0x6c, 0x6f, 0x63, 0x61, 0x74, 0x65]"

definition FILE_ENTRY :: byte where "FILE_ENTRY = 0"
definition DIR_ENTRY :: byte where "DIR_ENTRY = 1"
definition END_ENTRY :: byte where "END_ENTRY = 2"

subsection \<open>The operations on bytes the parser uses\<close>

text \<open>\<open>data[a:b]\<close> for \<open>0 \<le> a\<close>: a slice never raises, it is cut at the end of the data.\<close>

definition slice :: "'a list \<Rightarrow> nat \<Rightarrow> nat \<Rightarrow> 'a list" where
  "slice xs a b = take (b - a) (drop a xs)"

text \<open>\<open>data[pos]\<close> raises IndexError out of range.\<close>

definition byte_at :: "bytes \<Rightarrow> nat \<Rightarrow> error + byte" where
  "byte_at data pos = (if pos < length data then Inr (data ! pos) else Inl IndexError)"

text \<open>\<open>struct.unpack(">I", bs)[0]\<close>: four bytes, big-endian; any other length raises.\<close>

fun unpack_u32_be :: "bytes \<Rightarrow> error + nat" where
  "unpack_u32_be [a, b, c, d] =
     Inr (((unat a * 256 + unat b) * 256 + unat c) * 256 + unat d)"
| "unpack_u32_be _ = Inl StructError"

text \<open>
  \<open>data.index(b"\x00", start)\<close>: the position of the first zero byte at or after
  \<open>start\<close>; ValueError when there is none (also when \<open>start\<close> is past the end).
\<close>

definition index_nul :: "bytes \<Rightarrow> nat \<Rightarrow> error + nat" where
  "index_nul data start =
     (let n = length (takeWhile (\<lambda>b. b \<noteq> 0) (drop start data))
      in if start + n < length data then Inr (start + n) else Inl ValueError)"

subsection \<open>parse\_mlocate\_db\<close>

text \<open>
  \<open>bytes.decode("utf-8", errors="replace")\<close> is a function of the Python library, total
  on every byte string. It is the parameter \<open>dec\<close> of the model: every theorem below
  holds for every decoder.

  The list \<open>all_paths\<close> and the set \<open>seen\<close> are the state of the two loops
  (lines 71-72); lines 88-90 and 112-114 add a path when it is not in \<open>seen\<close>.
\<close>

type_synonym path_state = "str list \<times> str set"

definition add_path :: "str \<Rightarrow> path_state \<Rightarrow> path_state" where
  "add_path p st =
     (case st of (all_paths, seen) \<Rightarrow>
        if p \<notin> seen then (all_paths @ [p], insert p seen) else (all_paths, seen))"

text \<open>Lines 105-109: the full path of an entry.\<close>

definition full_path :: "str \<Rightarrow> str \<Rightarrow> str" where
  "full_path dir_path entry_name =
     (if dir_path = lit ''/'' then lit ''/'' @ entry_name
      else dir_path @ lit ''/'' @ entry_name)"

text \<open>
  Lines 39-69: the header. The result is \<open>(config_size, version, root_path, pos)\<close>,
  \<open>pos\<close> being the cursor the record loop starts from.
\<close>

definition read_header :: "(bytes \<Rightarrow> str) \<Rightarrow> bytes \<Rightarrow> error + (nat \<times> nat \<times> str \<times> nat)" where
  "read_header dec data =
     (let pos = 0;
          magic = slice data pos (pos + 8);
          pos = pos + 8
      in if magic \<noteq> MLOCATE_MAGIC then Inl (SystemExit 1)
         else case unpack_u32_be (slice data pos (pos + 4)) of
           Inl e \<Rightarrow> Inl e
         | Inr config_size \<Rightarrow>
             let pos = pos + 4 in
             (case byte_at data pos of
                Inl e \<Rightarrow> Inl e
              | Inr version \<Rightarrow>
                  let pos = pos + 1 in
                  (case byte_at data pos of
                     Inl e \<Rightarrow> Inl e
                   | Inr require_vis \<Rightarrow>
                       let pos = pos + 1;
                           pos = pos + 2
                       in (case index_nul data pos of
                             Inl e \<Rightarrow> Inl e
                           | Inr null_idx \<Rightarrow>
                               let root_path = dec (slice data pos null_idx);
                                   pos = null_idx + 1;
                                   pos = 8 + 4 + 4 + config_size
                               in Inr (config_size, unat version, root_path, pos)))))"

text \<open>
  Lines 93-114: the loop over the entries of one directory. It returns the cursor and the
  state; it ends at the END byte or at the end of the data.
\<close>

function read_entries ::
  "(bytes \<Rightarrow> str) \<Rightarrow> bytes \<Rightarrow> str \<Rightarrow> nat \<Rightarrow> path_state \<Rightarrow> error + (nat \<times> path_state)" where
  "read_entries dec data dir_path pos st =
     (if pos < length data then
        (let entry_type = data ! pos;
             pos1 = pos + 1
         in if entry_type = END_ENTRY then Inr (pos1, st)
            else (case index_nul data pos1 of
                    Inl e \<Rightarrow> Inl e
                  | Inr null_idx \<Rightarrow>
                      let entry_name = dec (slice data pos1 null_idx);
                          pos2 = null_idx + 1
                      in read_entries dec data dir_path pos2
                           (add_path (full_path dir_path entry_name) st)))
      else Inr (pos, st))"
  by pat_completeness auto

lemma index_nul_bounds:
  "index_nul data start = Inr i \<Longrightarrow> start \<le> i \<and> i < length data"
  by (auto simp: index_nul_def Let_def split: if_splits)

termination read_entries
  by (relation "measure (\<lambda>(dec, data, dir_path, pos, st). length data - pos)")
     (auto dest!: index_nul_bounds)

declare read_entries.simps [simp del]

lemma read_entries_pos:
  "read_entries dec data dir_path pos st = Inr (pos', st') \<Longrightarrow> pos \<le> pos'"
proof (induction dec data dir_path pos st rule: read_entries.induct)
  case (1 dec data dir_path pos st)
  show ?case
  proof (cases "pos < length data")
    case False
    with "1.prems" show ?thesis by (simp add: read_entries.simps [of _ data])
  next
    case True
    show ?thesis
    proof (cases "data ! pos = END_ENTRY")
      case True
      with \<open>pos < length data\<close> "1.prems" show ?thesis
        by (auto simp: read_entries.simps [of _ data])
    next
      case False
      from "1.prems" \<open>pos < length data\<close> False
      obtain i where i: "index_nul data (pos + 1) = Inr i"
        and rec: "read_entries dec data dir_path (i + 1)
                    (add_path (full_path dir_path (dec (slice data (pos + 1) i))) st)
                  = Inr (pos', st')"
        by (auto simp: read_entries.simps [of _ data _ pos] Let_def split: sum.splits)
      from "1.IH" [OF \<open>pos < length data\<close> refl refl False i refl refl rec]
      have "i + 1 \<le> pos'" .
      with index_nul_bounds [OF i] show ?thesis by simp
    qed
  qed
qed

text \<open>Lines 75-114: the loop over the directory records.\<close>

function read_directories ::
  "(bytes \<Rightarrow> str) \<Rightarrow> bytes \<Rightarrow> nat \<Rightarrow> path_state \<Rightarrow> error + path_state" where
  "read_directories dec data pos st =
     (if pos < length data then
        (if pos + 16 > length data then Inr st
         else (let pos1 = pos + 16 in
               case index_nul data pos1 of
                 Inl e \<Rightarrow> Inl e
               | Inr null_idx \<Rightarrow>
                   let dir_path = dec (slice data pos1 null_idx);
                       pos2 = null_idx + 1;
                       st1 = add_path dir_path st
                   in (case read_entries dec data dir_path pos2 st1 of
                         Inl e \<Rightarrow> Inl e
                       | Inr (pos3, st2) \<Rightarrow> read_directories dec data pos3 st2)))
      else Inr st)"
  by pat_completeness auto

termination read_directories
  by (relation "measure (\<lambda>(dec, data, pos, st). length data - pos)")
     (auto dest!: index_nul_bounds read_entries_pos)

declare read_directories.simps [simp del]

text \<open>Lines 32-116. The caller has read the file; \<open>data\<close> is its content.\<close>

definition parse_mlocate_db :: "(bytes \<Rightarrow> str) \<Rightarrow> bytes \<Rightarrow> error + (str list \<times> str \<times> nat)" where
  "parse_mlocate_db dec data =
     (case read_header dec data of
        Inl e \<Rightarrow> Inl e
      | Inr (config_size, version, root_path, pos) \<Rightarrow>
          (case read_directories dec data pos ([], {}) of
             Inl e \<Rightarrow> Inl e
           | Inr (all_paths, seen) \<Rightarrow> Inr (all_paths, root_path, version)))"

subsection \<open>search\_paths\<close>

text \<open>
  The functions of the Python library that \<open>search_paths\<close> calls are parameters of the
  model: \<open>str.lower\<close>, \<open>fnmatch.fnmatch\<close>, \<open>re.compile\<close> (with the flag
  \<open>re.IGNORECASE\<close> or none; it returns a compiled pattern or raises) and the
  \<open>search\<close> method of a compiled pattern. \<open>pat in target\<close> on strings is
  \<^const>\<open>sublist\<close>.
\<close>

record 'rx pylib =
  str_lower :: "str \<Rightarrow> str"
  fnmatch :: "str \<Rightarrow> str \<Rightarrow> bool"
  re_compile :: "str \<Rightarrow> bool \<Rightarrow> error + 'rx"
  re_search :: "'rx \<Rightarrow> str \<Rightarrow> bool"

text \<open>
  \<open>limit and len(results) >= limit\<close> (lines 133, 142, 151): \<open>limit\<close> is \<open>None\<close> or
  an integer, and \<open>None\<close> and \<open>0\<close> are false.
\<close>

definition cap_reached :: "int option \<Rightarrow> str list \<Rightarrow> bool" where
  "cap_reached limit results =
     (case limit of None \<Rightarrow> False | Some l \<Rightarrow> l \<noteq> 0 \<and> int (length results) \<ge> l)"

text \<open>
  The three \<open>for p in paths\<close> loops (lines 130-134, 137-143, 147-152) differ in the test
  only: \<open>matches\<close> is the test, \<open>results\<close> the list built so far.
\<close>

fun scan :: "(str \<Rightarrow> bool) \<Rightarrow> int option \<Rightarrow> str list \<Rightarrow> str list \<Rightarrow> str list" where
  "scan matches limit [] results = results"
| "scan matches limit (p # ps) results =
     (if matches p then
        (let results = results @ [p]
         in if cap_reached limit results then results else scan matches limit ps results)
      else scan matches limit ps results)"

text \<open>
  Lines 119-154. \<open>except re.error\<close> catches that exception only and exits; any other
  exception of \<open>re.compile\<close> goes on to the caller.
\<close>

definition search_paths ::
  "'rx pylib \<Rightarrow> str list \<Rightarrow> str \<Rightarrow> bool \<Rightarrow> bool \<Rightarrow> bool \<Rightarrow> int option \<Rightarrow> error + str list" where
  "search_paths lib paths pattern ignore_case use_glob use_regex limit =
     (if use_regex then
        (case re_compile lib pattern ignore_case of
           Inl e \<Rightarrow> (if e = ReError then Inl (SystemExit 1) else Inl e)
         | Inr rx \<Rightarrow> Inr (scan (re_search lib rx) limit paths []))
      else if use_glob then
        Inr (scan (\<lambda>p. let target = (if ignore_case then str_lower lib p else p);
                           pat = (if ignore_case then str_lower lib pattern else pattern)
                       in fnmatch lib target pat) limit paths [])
      else
        (let pat = (if ignore_case then str_lower lib pattern else pattern)
         in Inr (scan (\<lambda>p. let target = (if ignore_case then str_lower lib p else p)
                            in sublist pat target) limit paths [])))"

subsection \<open>What the byte stream encodes\<close>

text \<open>
  The sequence of paths the two loops come across, duplicates included: the same reading
  of the bytes as \<^const>\<open>read_entries\<close> and \<^const>\<open>read_directories\<close>, with every
  path recorded whether seen before or not.
\<close>

function scan_entries :: "(bytes \<Rightarrow> str) \<Rightarrow> bytes \<Rightarrow> str \<Rightarrow> nat \<Rightarrow> error + (nat \<times> str list)" where
  "scan_entries dec data dir_path pos =
     (if pos < length data then
        (if data ! pos = END_ENTRY then Inr (pos + 1, [])
         else (case index_nul data (pos + 1) of
                 Inl e \<Rightarrow> Inl e
               | Inr null_idx \<Rightarrow>
                   (case scan_entries dec data dir_path (null_idx + 1) of
                      Inl e \<Rightarrow> Inl e
                    | Inr (pos', raw) \<Rightarrow>
                        Inr (pos', full_path dir_path (dec (slice data (pos + 1) null_idx)) # raw))))
      else Inr (pos, []))"
  by pat_completeness auto

termination scan_entries
  by (relation "measure (\<lambda>(dec, data, dir_path, pos). length data - pos)")
     (auto dest!: index_nul_bounds)

declare scan_entries.simps [simp del]

lemma scan_entries_pos:
  "scan_entries dec data dir_path pos = Inr (pos', raw) \<Longrightarrow> pos \<le> pos'"
proof (induction dec data dir_path pos arbitrary: raw rule: scan_entries.induct)
  case (1 dec data dir_path pos)
  show ?case
  proof (cases "pos < length data \<and> data ! pos \<noteq> END_ENTRY")
    case False
    with "1.prems" show ?thesis
      by (auto simp: scan_entries.simps [of _ data _ pos] split: if_splits)
  next
    case True
    with "1.prems" obtain i raw' where i: "index_nul data (pos + 1) = Inr i"
      and rec: "scan_entries dec data dir_path (i + 1) = Inr (pos', raw')"
      by (auto simp: scan_entries.simps [of _ data _ pos] split: sum.splits)
    from True "1.IH" [OF _ _ i rec] have "i + 1 \<le> pos'" by simp
    with index_nul_bounds [OF i] show ?thesis by simp
  qed
qed

function scan_directories :: "(bytes \<Rightarrow> str) \<Rightarrow> bytes \<Rightarrow> nat \<Rightarrow> error + str list" where
  "scan_directories dec data pos =
     (if pos < length data then
        (if pos + 16 > length data then Inr []
         else (case index_nul data (pos + 16) of
                 Inl e \<Rightarrow> Inl e
               | Inr null_idx \<Rightarrow>
                   let dir_path = dec (slice data (pos + 16) null_idx)
                   in (case scan_entries dec data dir_path (null_idx + 1) of
                         Inl e \<Rightarrow> Inl e
                       | Inr (pos3, raw) \<Rightarrow>
                           (case scan_directories dec data pos3 of
                              Inl e \<Rightarrow> Inl e
                            | Inr raw' \<Rightarrow> Inr (dir_path # raw @ raw')))))
      else Inr [])"
  by pat_completeness auto

termination scan_directories
  by (relation "measure (\<lambda>(dec, data, pos). length data - pos)")
     (auto dest!: index_nul_bounds scan_entries_pos)

declare scan_directories.simps [simp del]

definition raw_paths :: "(bytes \<Rightarrow> str) \<Rightarrow> bytes \<Rightarrow> error + str list" where
  "raw_paths dec data =
     (case read_header dec data of
        Inl e \<Rightarrow> Inl e
      | Inr (config_size, version, root_path, pos) \<Rightarrow> scan_directories dec data pos)"

text \<open>Keeping the first occurrence of every element, in order.\<close>

fun dedup_first :: "'a list \<Rightarrow> 'a list" where
  "dedup_first [] = []"
| "dedup_first (x # xs) = x # dedup_first (filter (\<lambda>y. y \<noteq> x) xs)"

subsection \<open>Building a record stream\<close>

text \<open>
  A directory record is its 16-byte header, its path and its entries; an entry is its
  type byte and its name. The encoding is the one the loops read: header, path, a zero
  byte, then for each entry the type byte, the name and a zero byte, then the END byte.
\<close>

type_synonym entry = "byte \<times> bytes"
type_synonym dir_record = "bytes \<times> bytes \<times> entry list"

definition encode_entry :: "entry \<Rightarrow> bytes" where
  "encode_entry e = (case e of (entry_type, name) \<Rightarrow> entry_type # name @ [0])"

definition encode_entries :: "entry list \<Rightarrow> bytes" where
  "encode_entries es = concat (map encode_entry es)"

definition encode_record :: "dir_record \<Rightarrow> bytes" where
  "encode_record r =
     (case r of (header, path, es) \<Rightarrow> header @ path @ [0] @ encode_entries es @ [END_ENTRY])"

definition encode_records :: "dir_record list \<Rightarrow> bytes" where
  "encode_records recs = concat (map encode_record recs)"

definition valid_entry :: "entry \<Rightarrow> bool" where
  "valid_entry e = (case e of (entry_type, name) \<Rightarrow> entry_type \<noteq> END_ENTRY \<and> 0 \<notin> set name)"

definition valid_record :: "dir_record \<Rightarrow> bool" where
  "valid_record r =
     (case r of (header, path, es) \<Rightarrow>
        length header = 16 \<and> 0 \<notin> set path \<and> list_all valid_entry es)"

definition entry_paths :: "(bytes \<Rightarrow> str) \<Rightarrow> str \<Rightarrow> entry list \<Rightarrow> str list" where
  "entry_paths dec dir_path es = map (\<lambda>e. full_path dir_path (dec (snd e))) es"

definition record_paths :: "(bytes \<Rightarrow> str) \<Rightarrow> dir_record \<Rightarrow> str list" where
  "record_paths dec r =
     (case r of (header, path, es) \<Rightarrow> dec path # entry_paths dec (dec path) es)"

definition records_paths :: "(bytes \<Rightarrow> str) \<Rightarrow> dir_record list \<Rightarrow> str list" where
  "records_paths dec recs = concat (map (record_paths dec) recs)"

subsection \<open>Instances of the library parameters, for the examples\<close>

text \<open>
  On 7-bit bytes \<open>bytes.decode("utf-8", errors="replace")\<close> gives the code point of each
  byte; the examples hold such bytes only. (A byte from 0x80 on is shown as U+FFFD here,
  which is what Python gives for a stray byte, not for a well-formed multi-byte sequence.)
\<close>

definition ascii_decode :: "bytes \<Rightarrow> str" where
  "ascii_decode bs = map (\<lambda>b. if b < 0x80 then unat b else 0xFFFD) bs"

text \<open>The bytes of an ASCII literal.\<close>

definition blit :: "string \<Rightarrow> bytes" where
  "blit s = map of_char s"

text \<open>
  \<open>str.lower\<close> on ASCII; glob patterns and regular expressions without metacharacters
  (a glob matches when equal, a regular expression when it occurs); the regular
  expression \<open>(\<close> does not compile, as in Python.
\<close>

definition ascii_lower :: "str \<Rightarrow> str" where
  "ascii_lower s = map (\<lambda>c. if 65 \<le> c \<and> c \<le> 90 then c + 32 else c) s"

definition plain_lib :: "str pylib" where
  "plain_lib =
     \<lparr> str_lower = ascii_lower,
       fnmatch = (\<lambda>name pat. name = pat),
       re_compile = (\<lambda>pattern ignore_case. if pattern = lit ''('' then Inl ReError else Inr pattern),
       re_search = (\<lambda>rx s. sublist rx s) \<rparr>"

subsection \<open>Example buffers\<close>

text \<open>\<open>struct.pack(">I", n)\<close>, the inverse of \<^const>\<open>unpack_u32_be\<close>.\<close>

definition pack_u32_be :: "nat \<Rightarrow> bytes" where
  "pack_u32_be n =
     [of_nat (n div 16777216), of_nat (n div 65536), of_nat (n div 256), of_nat n]"

text \<open>
  A buffer: the fixed 16-byte prefix (magic, configuration size, version, visibility flag,
  two padding bytes), then \<open>region\<close>, then the encoded records.
\<close>

definition make_buffer :: "nat \<Rightarrow> byte \<Rightarrow> byte \<Rightarrow> bytes \<Rightarrow> dir_record list \<Rightarrow> bytes" where
  "make_buffer config_size version require_vis region recs =
     MLOCATE_MAGIC @ pack_u32_be config_size @ [version, require_vis, 0, 0] @ region
       @ encode_records recs"

text \<open>
  The file layout of the specification's external-interface section: after the prefix the
  root path and its terminator, then the configuration block, whose length is the
  configuration size field, then the records.
\<close>

definition layout_buffer :: "byte \<Rightarrow> byte \<Rightarrow> bytes \<Rightarrow> bytes \<Rightarrow> dir_record list \<Rightarrow> bytes" where
  "layout_buffer version require_vis root_path config_block recs =
     make_buffer (length config_block) version require_vis (root_path @ [0] @ config_block) recs"

definition zero16 :: bytes where
  "zero16 = [0, 0, 0, 0, 0, 0, 0, 0, 0, 0, 0, 0, 0, 0, 0, 0]"

definition root_region :: bytes where
  "root_region = blit ''/'' @ [0]"

definition dup_records :: "dir_record list" where
  "dup_records =
     [(zero16, blit ''/'', [(DIR_ENTRY, blit ''etc'')]),
      (zero16, blit ''/etc'', [(FILE_ENTRY, blit ''passwd'')]),
      (zero16, blit ''/'', [(DIR_ENTRY, blit ''etc'')])]"

definition nested_records :: "dir_record list" where
  "nested_records =
     [(zero16, blit ''/'', [(DIR_ENTRY, blit ''a'')]),
      (zero16, blit ''/a'', [(FILE_ENTRY, blit ''b'')])]"

definition flat_records :: "dir_record list" where
  "flat_records =
     [(zero16, blit ''/'', [(FILE_ENTRY, blit ''etc'')]),
      (zero16, blit ''/home'', [(FILE_ENTRY, blit ''alice'')])]"

definition root_records :: "dir_record list" where
  "root_records = [(zero16, blit ''/'', [(FILE_ENTRY, blit ''etc'')])]"

text \<open>The records that \<open>spec_layout_db\<close> holds when read from offset 16.\<close>

definition misread_records :: "dir_record list" where
  "misread_records =
     [(blit ''/'' @ [0, 0, 0, 0, 0, 0, 0, 0, 0, 0, 0, 0, 0, 0, 0], [],
       [(FILE_ENTRY, blit ''/''), (FILE_ENTRY, blit ''etc'')])]"

text \<open>
  Buffers whose configuration size field counts the bytes between the prefix and the
  records (here the root path \<open>/\<close> and its terminator), so that the record loop starts
  at the first record.
\<close>

definition dup_db :: bytes where "dup_db = make_buffer 2 0 0 root_region dup_records"
definition nested_db :: bytes where "nested_db = make_buffer 2 0 0 root_region nested_records"
definition flat_db :: bytes where "flat_db = make_buffer 2 0 0 root_region flat_records"
definition root_db :: bytes where "root_db = make_buffer 2 0 0 root_region root_records"

text \<open>Two buffers with the same configuration size and records, and different root paths.\<close>

definition short_root_db :: bytes where
  "short_root_db = make_buffer 8 0 0 (blit ''/'' @ [0] @ [7, 7, 7, 7, 7, 7]) flat_records"
definition long_root_db :: bytes where
  "long_root_db = make_buffer 8 0 0 (blit ''/home'' @ [0, 7, 7]) flat_records"

text \<open>A buffer in the layout of the external-interface section, with an empty block.\<close>

definition spec_layout_db :: bytes where
  "spec_layout_db = layout_buffer 0 0 (blit ''/'') [] root_records"

text \<open>
  Buffers that end inside a string: the root path, the path of the first directory record
  (from offset 34 on), the name of its first entry (from offset 37 on).
\<close>

definition trunc_root_db :: bytes where
  "trunc_root_db = make_buffer 0 0 0 (blit ''/home'') []"
definition trunc_path_db :: bytes where
  "trunc_path_db = make_buffer 2 0 0 root_region [] @ zero16 @ blit ''/ho''"
definition trunc_name_db :: bytes where
  "trunc_name_db =
     make_buffer 2 0 0 root_region [] @ zero16 @ blit ''/'' @ [0] @ [FILE_ENTRY] @ blit ''et''"

text \<open>The paths of the matching example.\<close>

definition example_paths :: "str list" where
  "example_paths =
     [lit ''/home/alice/report.txt'', lit ''/home/bob/notes.md'', lit ''/etc/passwd'']"

section \<open>Properties of search\_paths\<close>

lemma scan_zero: "scan m (Some 0) ps rs = scan m None ps rs"
  by (induction ps arbitrary: rs) (simp_all add: cap_reached_def Let_def)

lemma scan_None: "scan m None ps rs = rs @ filter m ps"
  by (induction ps arbitrary: rs) (simp_all add: cap_reached_def Let_def)

lemma scan_pos: "0 < n \<Longrightarrow> int (length rs) < n \<Longrightarrow>
   scan m (Some n) ps rs = rs @ take (nat n - length rs) (filter m ps)"
proof (induction ps arbitrary: rs)
  case Nil
  then show ?case by simp
next
  case (Cons p ps)
  show ?case
  proof (cases "m p")
    case False
    with Cons show ?thesis by simp
  next
    case True
    show ?thesis
    proof (cases "int (length (rs @ [p])) \<ge> n")
      case True
      with \<open>m p\<close> Cons.prems have "nat n - length rs = 1" by simp
      with True \<open>m p\<close> Cons.prems show ?thesis by (simp add: cap_reached_def)
    next
      case False
      then have lt: "int (length (rs @ [p])) < n" by simp
      from Cons.IH [OF Cons.prems(1) lt] False \<open>m p\<close> Cons.prems
      show ?thesis by (simp add: cap_reached_def Let_def Suc_diff_le take_Cons')
    qed
  qed
qed

lemma scan_pos_empty: "0 < n \<Longrightarrow> scan m (Some n) ps [] = take (nat n) (filter m ps)"
  using scan_pos [of n "[]" m ps] by simp

text \<open>
  Claim C7, amended. When \<open>limit\<close> is a positive number \<open>n\<close>, \<open>search_paths\<close> returns
  the first \<open>n\<close> paths, in the order of the input, of those it returns without a limit
  (all of them when there are fewer), so at most \<open>n\<close>; and once \<open>n\<close> results are found
  the paths that follow are not looked at: appending more paths changes nothing.
\<close>

theorem limit_caps_results:
  assumes "0 < n"
    and "search_paths lib paths pattern ignore_case use_glob use_regex (Some n) = Inr results"
  shows "\<exists>matches.
           search_paths lib paths pattern ignore_case use_glob use_regex None
             = Inr (filter matches paths)
           \<and> results = take (nat n) (filter matches paths)
           \<and> int (length results) \<le> n
           \<and> (length results = nat n \<longrightarrow>
                (\<forall>more. search_paths lib (paths @ more) pattern ignore_case use_glob use_regex
                          (Some n) = Inr results))"
proof -
  from assms obtain m where
    lim: "\<And>ps. search_paths lib ps pattern ignore_case use_glob use_regex (Some n)
            = Inr (scan m (Some n) ps [])"
    and unl: "search_paths lib paths pattern ignore_case use_glob use_regex None
            = Inr (scan m None paths [])"
    by (auto simp: search_paths_def Let_def split: if_splits sum.splits)
  from lim [of paths] assms have res: "results = take (nat n) (filter m paths)"
    by (simp add: scan_pos_empty)
  have "search_paths lib (paths @ more) pattern ignore_case use_glob use_regex (Some n)
          = Inr results" if "length results = nat n" for more
    using that res assms(1) by (simp add: lim scan_pos_empty)
  with res unl assms(1) show ?thesis
    by (intro exI [of _ m]) (auto simp: scan_None)
qed

theorem limit_caps_results_witness:
  "(0::int) < 1
   \<and> search_paths plain_lib example_paths (lit ''home'') False False False (Some 1)
       = Inr [lit ''/home/alice/report.txt'']
   \<and> (\<exists>matches.
        search_paths plain_lib example_paths (lit ''home'') False False False None
          = Inr (filter matches example_paths)
        \<and> [lit ''/home/alice/report.txt''] = take (nat 1) (filter matches example_paths))"
proof -
  have h: "search_paths plain_lib example_paths (lit ''home'') False False False (Some 1)
             = Inr [lit ''/home/alice/report.txt'']"
    by code_simp
  from limit_caps_results [OF _ h] h show ?thesis by auto
qed

text \<open>
  Claim C7 as stated fails when the limit is set to a number that is not positive: with
  \<open>-1\<close> the loop stops at the first match and returns one path, more than the limit; with
  \<open>0\<close> it returns every match.
\<close>

theorem limit_not_positive_counterexample:
  "search_paths plain_lib example_paths (lit ''home'') False False False (Some (- 1))
     = Inr [lit ''/home/alice/report.txt'']
   \<and> \<not> int (length [lit ''/home/alice/report.txt'']) \<le> - 1
   \<and> search_paths plain_lib example_paths (lit ''home'') False False False (Some 0)
     = Inr [lit ''/home/alice/report.txt'', lit ''/home/bob/notes.md'']
   \<and> \<not> int (length [lit ''/home/alice/report.txt'', lit ''/home/bob/notes.md'']) \<le> 0"
  by code_simp



text \<open>
  Claim C10. A limit of \<open>0\<close> gives the same result as no limit, for every list of paths,
  pattern, mode and case flag.
\<close>

theorem zero_limit_unset:
  "search_paths lib paths pattern ignore_case use_glob use_regex (Some 0)
   = search_paths lib paths pattern ignore_case use_glob use_regex None"
  by (simp add: search_paths_def scan_zero split: sum.splits)

theorem zero_limit_unset_witness:
  "search_paths plain_lib example_paths (lit ''home'') False False False (Some 0)
   = Inr [lit ''/home/alice/report.txt'', lit ''/home/bob/notes.md'']"
proof -
  have "search_paths plain_lib example_paths (lit ''home'') False False False None
        = Inr [lit ''/home/alice/report.txt'', lit ''/home/bob/notes.md'']"
    by code_simp
  with zero_limit_unset [of plain_lib example_paths "lit ''home''" False False False]
  show ?thesis by simp
qed

section \<open>Reading the record stream\<close>

text \<open>The loops read the data from the cursor on, whatever comes before it.\<close>

lemma index_nul_drop:
  "index_nul data (k + s) =
     (case index_nul (drop k data) s of Inl e \<Rightarrow> Inl e | Inr i \<Rightarrow> Inr (k + i))"
  by (auto simp: index_nul_def Let_def add.commute)

lemma slice_drop: "slice data (k + a) (k + b) = slice (drop k data) a b"
  by (simp add: slice_def add.commute)

lemma scan_entries_drop:
  "scan_entries dec data dir_path (k + pos) =
     (case scan_entries dec (drop k data) dir_path pos of
        Inl e \<Rightarrow> Inl e | Inr (p, raw) \<Rightarrow> Inr (k + p, raw))"
proof (induction dec "drop k data" dir_path pos rule: scan_entries.induct)
  case (1 dec dir_path pos)
  show ?case
  proof (cases "pos < length (drop k data)")
    case False
    then have "\<not> k + pos < length data" by simp
    with False show ?thesis
      by (simp add: scan_entries.simps [of _ data _ "k + pos"]
            scan_entries.simps [of _ "drop k data" _ pos])
  next
    case True
    then have lt: "k + pos < length data" and nth: "drop k data ! pos = data ! (k + pos)"
      by auto
    show ?thesis
    proof (cases "data ! (k + pos) = END_ENTRY")
      case True
      with lt nth \<open>pos < length (drop k data)\<close> show ?thesis
        by (simp add: scan_entries.simps [of _ data _ "k + pos"]
              scan_entries.simps [of _ "drop k data" _ pos])
    next
      case False
      show ?thesis
      proof (cases "index_nul (drop k data) (pos + 1)")
        case (Inl e)
        with lt nth False \<open>pos < length (drop k data)\<close>
          index_nul_drop [of data k "pos + 1"] show ?thesis
          by (simp add: scan_entries.simps [of _ data _ "k + pos"]
                scan_entries.simps [of _ "drop k data" _ pos] add.assoc)
      next
        case (Inr i)
        from "1.hyps" [OF \<open>pos < length (drop k data)\<close> _ Inr] False nth
        have IH: "scan_entries dec data dir_path (k + (i + 1)) =
           (case scan_entries dec (drop k data) dir_path (i + 1) of
              Inl e \<Rightarrow> Inl e | Inr (p, raw) \<Rightarrow> Inr (k + p, raw))" by simp
        from Inr index_nul_drop [of data k "pos + 1"]
        have idx: "index_nul data (k + pos + 1) = Inr (k + i)" by (simp add: add.assoc)
        have sl: "slice data (k + pos + 1) (k + i) = slice (drop k data) (pos + 1) i"
          using slice_drop [of data k "pos + 1" i] by (simp add: add.assoc)
        from lt nth False \<open>pos < length (drop k data)\<close> Inr idx sl IH show ?thesis
          by (simp add: scan_entries.simps [of _ data _ "k + pos"]
                scan_entries.simps [of _ "drop k data" _ pos] add.assoc
              split: sum.splits)
      qed
    qed
  qed
qed


lemma scan_directories_drop:
  "scan_directories dec data (k + pos) = scan_directories dec (drop k data) pos"
proof (induction dec "drop k data" pos rule: scan_directories.induct)
  case (1 dec pos)
  show ?case
  proof (cases "pos < length (drop k data) \<and> pos + 16 \<le> length (drop k data)")
    case False
    then have "\<not> k + pos < length data \<or> k + pos + 16 > length data" by auto
    with False show ?thesis
      by (auto simp: scan_directories.simps [of _ data "k + pos"]
            scan_directories.simps [of _ "drop k data" pos])
  next
    case True
    then have lt: "k + pos < length data" "\<not> k + pos + 16 > length data"
      and lt': "pos < length (drop k data)" "\<not> pos + 16 > length (drop k data)" by auto
    show ?thesis
    proof (cases "index_nul (drop k data) (pos + 16)")
      case (Inl e)
      with lt lt' index_nul_drop [of data k "pos + 16"] show ?thesis
        by (simp add: scan_directories.simps [of _ data "k + pos"]
              scan_directories.simps [of _ "drop k data" pos] add.assoc)
    next
      case (Inr i)
      from Inr index_nul_drop [of data k "pos + 16"]
      have idx: "index_nul data (k + pos + 16) = Inr (k + i)" by (simp add: add.assoc)
      have sl: "slice data (k + pos + 16) (k + i) = slice (drop k data) (pos + 16) i"
        using slice_drop [of data k "pos + 16" i] by (simp add: add.assoc)
      let ?d = "dec (slice (drop k data) (pos + 16) i)"
      have ent: "scan_entries dec data ?d (k + i + 1) =
           (case scan_entries dec (drop k data) ?d (i + 1) of
              Inl e \<Rightarrow> Inl e | Inr (p, raw) \<Rightarrow> Inr (k + p, raw))"
        using scan_entries_drop [of dec data ?d k "i + 1"] by (simp add: add.assoc)
      show ?thesis
      proof (cases "scan_entries dec (drop k data) ?d (i + 1)")
        case (Inl e)
        with lt lt' Inr idx sl ent show ?thesis
          by (simp add: scan_directories.simps [of _ data "k + pos"]
                scan_directories.simps [of _ "drop k data" pos] Let_def)
      next
        case (Inr pr)
        obtain p raw where pr: "pr = (p, raw)" by (cases pr)
        from "1.hyps" [OF lt'(1) lt'(2) \<open>index_nul (drop k data) (pos + 16) = Inr i\<close> refl
            Inr [unfolded pr] refl]
        have IH: "scan_directories dec data (k + p) = scan_directories dec (drop k data) p" .
        from lt lt' \<open>index_nul (drop k data) (pos + 16) = Inr i\<close> idx sl ent Inr pr IH
        show ?thesis
          by (simp add: scan_directories.simps [of _ data "k + pos"]
                scan_directories.simps [of _ "drop k data" pos] Let_def)
      qed
    qed
  qed
qed

lemma scan_directories_suffix:
  "drop p1 d1 = drop p2 d2 \<Longrightarrow> scan_directories dec d1 p1 = scan_directories dec d2 p2"
  using scan_directories_drop [of dec d1 p1 0] scan_directories_drop [of dec d2 p2 0] by simp

lemma read_entries_scan:
  "read_entries dec data dir_path pos st =
     (case scan_entries dec data dir_path pos of
        Inl e \<Rightarrow> Inl e | Inr (p, raw) \<Rightarrow> Inr (p, fold add_path raw st))"
proof (induction dec data dir_path pos st rule: read_entries.induct)
  case (1 dec data dir_path pos st)
  show ?case
  proof (cases "pos < length data \<and> data ! pos \<noteq> END_ENTRY")
    case False
    then show ?thesis
      by (auto simp: read_entries.simps [of _ data _ pos] scan_entries.simps [of _ data _ pos])
  next
    case True
    show ?thesis
    proof (cases "index_nul data (pos + 1)")
      case (Inl e)
      with True show ?thesis
        by (simp add: read_entries.simps [of _ data _ pos] scan_entries.simps [of _ data _ pos])
    next
      case (Inr i)
      from True "1.IH" [OF _ refl refl _ Inr refl refl]
      have "read_entries dec data dir_path (i + 1)
              (add_path (full_path dir_path (dec (slice data (pos + 1) i))) st) =
            (case scan_entries dec data dir_path (i + 1) of
               Inl e \<Rightarrow> Inl e
             | Inr (p, raw) \<Rightarrow>
                 Inr (p, fold add_path raw
                           (add_path (full_path dir_path (dec (slice data (pos + 1) i))) st)))"
        by simp
      with True Inr show ?thesis
        by (simp add: read_entries.simps [of _ data _ pos] scan_entries.simps [of _ data _ pos]
              Let_def split: sum.splits)
    qed
  qed
qed

lemma read_directories_scan:
  "read_directories dec data pos st =
     (case scan_directories dec data pos of
        Inl e \<Rightarrow> Inl e | Inr raw \<Rightarrow> Inr (fold add_path raw st))"
proof (induction dec data pos st rule: read_directories.induct)
  case (1 dec data pos st)
  show ?case
  proof (cases "pos < length data \<and> pos + 16 \<le> length data")
    case False
    then show ?thesis
      by (auto simp: read_directories.simps [of _ data pos] scan_directories.simps [of _ data pos])
  next
    case True
    then have lt: "pos < length data" "\<not> pos + 16 > length data" by auto
    show ?thesis
    proof (cases "index_nul data (pos + 16)")
      case (Inl e)
      with lt show ?thesis
        by (simp add: read_directories.simps [of _ data pos] scan_directories.simps [of _ data pos])
    next
      case (Inr i)
      let ?d = "dec (slice data (pos + 16) i)"
      show ?thesis
      proof (cases "scan_entries dec data ?d (i + 1)")
        case (Inl e)
        with lt Inr show ?thesis
          by (simp add: read_directories.simps [of _ data pos]
                scan_directories.simps [of _ data pos] Let_def read_entries_scan)
      next
        case (Inr pr)
        obtain p raw where pr: "pr = (p, raw)" by (cases pr)
        have re: "read_entries dec data ?d (i + 1) (add_path ?d st)
                    = Inr (p, fold add_path raw (add_path ?d st))"
          using Inr pr by (simp add: read_entries_scan)
        from "1.IH" [OF lt(1) lt(2) refl \<open>index_nul data (pos + 16) = Inr i\<close> refl refl refl re refl]
        have IH: "read_directories dec data p (fold add_path raw (add_path ?d st)) =
            (case scan_directories dec data p of
               Inl e \<Rightarrow> Inl e
             | Inr raw' \<Rightarrow> Inr (fold add_path raw' (fold add_path raw (add_path ?d st))))" .
        from lt \<open>index_nul data (pos + 16) = Inr i\<close> Inr pr re IH show ?thesis
          by (simp add: read_directories.simps [of _ data pos]
                scan_directories.simps [of _ data pos] Let_def split: sum.splits)
      qed
    qed
  qed
qed

lemma set_dedup_first: "set (dedup_first xs) = set xs"
  by (induction xs rule: dedup_first.induct) auto

lemma distinct_dedup_first: "distinct (dedup_first xs)"
  by (induction xs rule: dedup_first.induct) (auto simp: set_dedup_first)

lemma dedup_first_snoc:
  "dedup_first (xs @ [x]) = (if x \<in> set xs then dedup_first xs else dedup_first xs @ [x])"
  by (induction xs rule: dedup_first.induct) auto

lemma dedup_first_distinct: "distinct xs \<Longrightarrow> dedup_first xs = xs"
proof (induction xs)
  case Nil
  then show ?case by simp
next
  case (Cons x xs)
  then have "filter (\<lambda>y. y \<noteq> x) xs = xs" by (auto intro: filter_True)
  with Cons show ?case by simp
qed

lemma fold_add_path:
  "fold add_path raw (ps, set ps) =
     (ps @ dedup_first (filter (\<lambda>p. p \<notin> set ps) raw), set ps \<union> set raw)"
proof (induction raw arbitrary: ps)
  case Nil
  then show ?case by simp
next
  case (Cons x xs)
  show ?case
  proof (cases "x \<in> set ps")
    case True
    with Cons [of ps] show ?thesis by (auto simp: add_path_def)
  next
    case False
    have f: "filter (\<lambda>p. p \<notin> set (ps @ [x])) xs
               = filter (\<lambda>y. y \<noteq> x) (filter (\<lambda>p. p \<notin> set ps) xs)"
      by (auto intro: filter_cong)
    from False have "add_path x (ps, set ps) = (ps @ [x], set (ps @ [x]))"
      by (simp add: add_path_def)
    with Cons [of "ps @ [x]"] False f show ?thesis by auto
  qed
qed

lemma parse_mlocate_db_raw:
  "parse_mlocate_db dec data =
     (case read_header dec data of
        Inl e \<Rightarrow> Inl e
      | Inr (config_size, version, root_path, pos) \<Rightarrow>
          (case scan_directories dec data pos of
             Inl e \<Rightarrow> Inl e
           | Inr raw \<Rightarrow> Inr (dedup_first raw, root_path, version)))"
  using fold_add_path [of _ "[]"]
  by (simp add: parse_mlocate_db_def read_directories_scan split: sum.splits prod.splits)


lemma index_nul_append:
  "0 \<notin> set s \<Longrightarrow> index_nul (pre @ s @ 0 # rest) (length pre) = Inr (length pre + length s)"
proof -
  assume "0 \<notin> set s"
  then have "takeWhile (\<lambda>b. b \<noteq> 0) (s @ 0 # rest) = s"
    by (subst takeWhile_append2) auto
  then show ?thesis by (simp add: index_nul_def Let_def)
qed

lemma index_nul_none: "0 \<notin> set (drop k s) \<Longrightarrow> index_nul s k = Inl ValueError"
proof -
  assume "0 \<notin> set (drop k s)"
  then have tw: "takeWhile (\<lambda>b. b \<noteq> 0) (drop k s) = drop k s"
    by (intro takeWhile_eq_all_conv [THEN iffD2]) auto
  show ?thesis unfolding index_nul_def Let_def tw by simp
qed

lemma slice_append: "slice (pre @ s @ rest) (length pre) (length pre + length s) = s"
  by (simp add: slice_def)

lemma scan_entries_append:
  "length pre = k \<Longrightarrow> scan_entries dec (pre @ rest) d k =
     (case scan_entries dec rest d 0 of
        Inl e \<Rightarrow> Inl e | Inr (p, raw) \<Rightarrow> Inr (k + p, raw))"
  using scan_entries_drop [of dec "pre @ rest" d k 0] by auto

lemma scan_directories_append:
  "scan_directories dec (pre @ rest) (length pre) = scan_directories dec rest 0"
  using scan_directories_drop [of dec "pre @ rest" "length pre" 0] by simp

lemma scan_entries_step:
  assumes "t \<noteq> END_ENTRY" "0 \<notin> set name"
  shows "scan_entries dec (t # name @ 0 # rest) d 0 =
     (case scan_entries dec rest d 0 of
        Inl e \<Rightarrow> Inl e
      | Inr (p, raw) \<Rightarrow> Inr (length name + 2 + p, full_path d (dec name) # raw))"
proof -
  let ?data = "t # name @ 0 # rest"
  have idx: "index_nul ?data 1 = Inr (1 + length name)"
    using index_nul_append [OF assms(2), of "[t]" rest] by simp
  have sl: "slice ?data 1 (1 + length name) = name"
    using slice_append [of "[t]" name "0 # rest"] by simp
  have rec: "scan_entries dec ?data d (length name + 2) =
     (case scan_entries dec rest d 0 of
        Inl e \<Rightarrow> Inl e | Inr (p, raw) \<Rightarrow> Inr (length name + 2 + p, raw))"
    using scan_entries_append [of "t # name @ [0]" "length name + 2" dec rest d] by simp
  from assms(1) idx sl rec show ?thesis
    by (simp add: scan_entries.simps [of _ ?data _ 0] split: sum.splits)
qed

lemma scan_entries_encoded:
  "list_all valid_entry es \<Longrightarrow>
   scan_entries dec (encode_entries es @ END_ENTRY # tail) d 0
     = Inr (length (encode_entries es) + 1, entry_paths dec d es)"
proof (induction es)
  case Nil
  then show ?case
    by (simp add: encode_entries_def entry_paths_def scan_entries.simps [of _ _ _ 0])
next
  case (Cons e es)
  obtain t name where e: "e = (t, name)" by (cases e)
  from Cons.prems have ve: "valid_entry e" and vs: "list_all valid_entry es" by simp_all
  from ve e have v: "t \<noteq> END_ENTRY" "0 \<notin> set name" by (simp_all add: valid_entry_def)
  have "encode_entries (e # es) @ END_ENTRY # tail
          = t # name @ 0 # (encode_entries es @ END_ENTRY # tail)"
    by (simp add: encode_entries_def encode_entry_def e)
  with scan_entries_step [OF v, of dec "encode_entries es @ END_ENTRY # tail" d] Cons.IH [OF vs]
  show ?case
    by (simp add: e entry_paths_def encode_entries_def encode_entry_def)
qed

lemma scan_entries_truncated:
  "list_all valid_entry es \<Longrightarrow> t \<noteq> END_ENTRY \<Longrightarrow> 0 \<notin> set s \<Longrightarrow>
   scan_entries dec (encode_entries es @ t # s) d 0 = Inl ValueError"
proof (induction es)
  case Nil
  have "index_nul (t # s) 1 = Inl ValueError"
    using Nil by (intro index_nul_none) simp
  with Nil show ?case
    by (simp add: encode_entries_def scan_entries.simps [of _ _ _ 0])
next
  case (Cons e es)
  obtain t' name where e: "e = (t', name)" by (cases e)
  from Cons.prems have ve: "valid_entry e" and vs: "list_all valid_entry es" by simp_all
  from ve e have v: "t' \<noteq> END_ENTRY" "0 \<notin> set name" by (simp_all add: valid_entry_def)
  have "encode_entries (e # es) @ t # s = t' # name @ 0 # (encode_entries es @ t # s)"
    by (simp add: encode_entries_def encode_entry_def e)
  with scan_entries_step [OF v, of dec "encode_entries es @ t # s" d]
    Cons.IH [OF vs Cons.prems(2,3)]
  show ?case by simp
qed

lemma scan_directories_step:
  assumes "length header = 16" "0 \<notin> set path"
  shows "scan_directories dec (header @ path @ 0 # rest) 0 =
     (case scan_entries dec rest (dec path) 0 of
        Inl e \<Rightarrow> Inl e
      | Inr (p, raw) \<Rightarrow>
          (case scan_directories dec (drop p rest) 0 of
             Inl e \<Rightarrow> Inl e
           | Inr raw' \<Rightarrow> Inr (dec path # raw @ raw')))"
proof -
  let ?data = "header @ path @ 0 # rest"
  have idx: "index_nul ?data 16 = Inr (16 + length path)"
    using index_nul_append [OF assms(2), of header rest] assms(1) by simp
  have sl: "slice ?data 16 (16 + length path) = path"
    using slice_append [of header path "0 # rest"] assms(1) by simp
  have ent: "scan_entries dec ?data d (16 + length path + 1) =
     (case scan_entries dec rest d 0 of
        Inl e \<Rightarrow> Inl e | Inr (p, raw) \<Rightarrow> Inr (17 + length path + p, raw))" for d
    using scan_entries_append [of "header @ path @ [0]" "17 + length path" dec rest d] assms(1)
    by simp
  have dirs: "scan_directories dec ?data (17 + length path + p)
                = scan_directories dec (drop p rest) 0" for p
    using scan_directories_drop [of dec ?data "17 + length path" p]
      scan_directories_drop [of dec rest p 0] assms(1) by simp
  from assms(1) idx sl ent dirs show ?thesis
    by (simp add: scan_directories.simps [of _ ?data 0] Let_def split: sum.splits)
qed

lemma scan_directories_encoded:
  "list_all valid_record recs \<Longrightarrow>
   scan_directories dec (encode_records recs @ tail) 0 =
     (case scan_directories dec tail 0 of
        Inl e \<Rightarrow> Inl e | Inr raw \<Rightarrow> Inr (records_paths dec recs @ raw))"
proof (induction recs)
  case Nil
  then show ?case by (simp add: encode_records_def records_paths_def split: sum.splits)
next
  case (Cons r recs)
  obtain header path es where r: "r = (header, path, es)" by (cases r)
  from Cons.prems have vr: "valid_record r" and vs: "list_all valid_record recs" by simp_all
  from vr r have v: "length header = 16" "0 \<notin> set path" "list_all valid_entry es"
    by (simp_all add: valid_record_def)
  let ?rest = "encode_records recs @ tail"
  have enc: "encode_records ((header, path, es) # recs) @ tail
          = header @ path @ 0 # (encode_entries es @ END_ENTRY # ?rest)"
    by (simp add: encode_records_def encode_record_def)
  have "drop (length (encode_entries es) + 1) (encode_entries es @ END_ENTRY # ?rest) = ?rest"
    by simp
  with scan_directories_step [OF v(1,2), of dec "encode_entries es @ END_ENTRY # ?rest"]
    scan_entries_encoded [OF v(3), of dec ?rest "dec path"] Cons.IH [OF vs]
  show ?case
    by (simp add: enc r records_paths_def record_paths_def split: sum.splits)
qed

lemma scan_directories_Nil: "scan_directories dec [] 0 = Inr []"
  by (simp add: scan_directories.simps [of _ _ 0])

lemma read_header_pos:
  "read_header dec data = Inr (config_size, version, root_path, pos) \<Longrightarrow> pos = 16 + config_size"
  by (auto simp: read_header_def Let_def split: if_splits sum.splits)

lemma parse_encoded:
  assumes "read_header dec data = Inr (config_size, version, root_path, pos)"
    and "drop pos data = encode_records recs @ tail"
    and "list_all valid_record recs"
  shows "parse_mlocate_db dec data =
     (case scan_directories dec tail 0 of
        Inl e \<Rightarrow> Inl e
      | Inr raw \<Rightarrow> Inr (dedup_first (records_paths dec recs @ raw), root_path, version))"
proof -
  have "scan_directories dec data pos = scan_directories dec (encode_records recs @ tail) 0"
    using scan_directories_drop [of dec data pos 0] assms(2) by simp
  with assms(1) scan_directories_encoded [OF assms(3), of dec tail] show ?thesis
    by (simp add: parse_mlocate_db_raw split: sum.splits)
qed

lemma unpack_pack_u32_be: "n < 2 ^ 32 \<Longrightarrow> unpack_u32_be (pack_u32_be n) = Inr n"
proof -
  assume n: "n < 2 ^ 32"
  define q1 where "q1 = n div 256"
  define q2 where "q2 = q1 div 256"
  define q3 where "q3 = q2 div 256"
  have "n div (256 * 256) = n div 256 div 256" by (rule div_mult2_eq)
  then have e2: "n div 65536 = q2" by (simp add: q1_def q2_def)
  have "n div (65536 * 256) = n div 65536 div 256" by (rule div_mult2_eq)
  then have e3: "n div 16777216 = q3" by (simp add: e2 q3_def)
  from n have "n div 16777216 < 256" by (intro less_mult_imp_div_less) simp
  then have A: "q3 mod 256 = q3" by (simp add: e3)
  have B: "q3 * 256 + q2 mod 256 = q2" unfolding q3_def by (rule div_mult_mod_eq)
  have C: "q2 * 256 + q1 mod 256 = q1" unfolding q2_def by (rule div_mult_mod_eq)
  have D: "q1 * 256 + n mod 256 = n" unfolding q1_def by (rule div_mult_mod_eq)
  have "unpack_u32_be (pack_u32_be n)
          = Inr (((q3 mod 256 * 256 + q2 mod 256) * 256 + q1 mod 256) * 256 + n mod 256)"
    by (simp add: pack_u32_be_def unat_of_nat e2 e3 q1_def [symmetric])
  then show ?thesis by (simp only: A B C D)
qed

lemma read_header_make_buffer:
  assumes "0 \<notin> set root" "config_size < 2 ^ 32"
  shows "read_header dec (make_buffer config_size version require_vis (root @ 0 # rest) recs)
           = Inr (config_size, unat version, dec root, 16 + config_size)"
proof -
  let ?pre = "MLOCATE_MAGIC @ pack_u32_be config_size @ [version, require_vis, 0, 0]"
  let ?data = "make_buffer config_size version require_vis (root @ 0 # rest) recs"
  have len: "length ?pre = 16" by (simp add: MLOCATE_MAGIC_def pack_u32_be_def)
  have data: "?data = ?pre @ root @ 0 # (rest @ encode_records recs)"
    by (simp add: make_buffer_def)
  have magic: "slice ?data 0 8 = MLOCATE_MAGIC"
    by (simp add: make_buffer_def slice_def MLOCATE_MAGIC_def)
  have size: "slice ?data 8 12 = pack_u32_be config_size"
    by (simp add: make_buffer_def slice_def MLOCATE_MAGIC_def pack_u32_be_def)
  have ver: "byte_at ?data 12 = Inr version" "byte_at ?data 13 = Inr require_vis"
    by (simp_all add: make_buffer_def byte_at_def MLOCATE_MAGIC_def pack_u32_be_def)
  have idx: "index_nul ?data 16 = Inr (16 + length root)"
    using index_nul_append [OF assms(1), of ?pre "rest @ encode_records recs"] len data by simp
  have sl: "slice ?data 16 (16 + length root) = root"
    using slice_append [of ?pre root "0 # (rest @ encode_records recs)"] len data by simp
  from magic size ver idx sl unpack_pack_u32_be [OF assms(2)] show ?thesis
    by (simp add: read_header_def)
qed

lemma length_records_paths:
  "list_all (\<lambda>r. length (snd (snd r)) = M) recs \<Longrightarrow>
   length (records_paths dec recs) = length recs + length recs * M"
  by (induction recs) (auto simp: records_paths_def record_paths_def entry_paths_def)

lemma scan_directories_truncated_path:
  assumes "length header = 16" "0 \<notin> set s"
  shows "scan_directories dec (header @ s) 0 = Inl ValueError"
proof -
  have "index_nul (header @ s) 16 = Inl ValueError"
    using assms by (intro index_nul_none) simp
  with assms(1) show ?thesis
    by (simp add: scan_directories.simps [of _ "header @ s" 0])
qed

lemma scan_directories_truncated_name:
  assumes "length header = 16" "0 \<notin> set path" "list_all valid_entry es"
    "t \<noteq> END_ENTRY" "0 \<notin> set s"
  shows "scan_directories dec (header @ path @ 0 # encode_entries es @ t # s) 0 = Inl ValueError"
  using scan_directories_step [OF assms(1,2), of dec "encode_entries es @ t # s"]
    scan_entries_truncated [OF assms(3,4,5), of dec "dec path"] by simp

lemma unpack_u32_be_4: "length bs = 4 \<Longrightarrow> \<exists>n. unpack_u32_be bs = Inr n"
  by (cases bs rule: unpack_u32_be.cases) auto

lemma read_header_truncated_root:
  assumes "take 8 data = MLOCATE_MAGIC" "14 \<le> length data" "0 \<notin> set (drop 16 data)"
  shows "read_header dec data = Inl ValueError"
proof -
  have "length (slice data 8 12) = 4" using assms(2) by (simp add: slice_def)
  from unpack_u32_be_4 [OF this] obtain n where n: "unpack_u32_be (slice data 8 12) = Inr n" ..
  from assms n index_nul_none [OF assms(3)] show ?thesis
    by (simp add: read_header_def slice_def byte_at_def)
qed

lemmas db_defs =
  dup_db_def nested_db_def flat_db_def root_db_def short_root_db_def long_root_db_def
  spec_layout_db_def trunc_root_db_def trunc_path_db_def trunc_name_db_def
  layout_buffer_def make_buffer_def MLOCATE_MAGIC_def pack_u32_be_def root_region_def blit_def
  zero16_def encode_records_def

lemmas header_defs =
  read_header_def slice_def byte_at_def index_nul_def lit_def ascii_decode_def

lemmas record_defs =
  dup_records_def nested_records_def flat_records_def root_records_def misread_records_def
  valid_record_def valid_entry_def zero16_def blit_def END_ENTRY_def DIR_ENTRY_def FILE_ENTRY_def

lemmas path_defs =
  records_paths_def record_paths_def entry_paths_def full_path_def ascii_decode_def blit_def
  lit_def zero16_def

section \<open>Properties of parse\_mlocate\_db\<close>

text \<open>
  Claim C6. When the first 8 bytes of the data are not the magic signature (also when the
  data is shorter), \<open>parse_mlocate_db\<close> exits with status 1 and returns nothing, whatever
  the rest of the data is.
\<close>

theorem magic_rejection:
  "take 8 data \<noteq> MLOCATE_MAGIC \<Longrightarrow> parse_mlocate_db dec data = Inl (SystemExit 1)"
  by (simp add: parse_mlocate_db_def read_header_def slice_def)

theorem magic_rejection_witness:
  "take 8 (blit ''notmlocate-and-more'') \<noteq> MLOCATE_MAGIC
   \<and> parse_mlocate_db ascii_decode (blit ''notmlocate-and-more'') = Inl (SystemExit 1)"
proof -
  have h: "take 8 (blit ''notmlocate-and-more'') \<noteq> MLOCATE_MAGIC"
    by (simp add: blit_def MLOCATE_MAGIC_def)
  from h magic_rejection [OF h, of ascii_decode] show ?thesis by simp
qed

text \<open>
  Claim C1, amended. When the data from the cursor that the header leaves is the encoding
  of \<open>N\<close> directory records (a 16-byte header, a path and entry names without zero
  bytes, entry types other than END), \<open>parse_mlocate_db\<close> returns the directory paths
  and the full paths of the entries in the order of the byte stream, each at its first
  occurrence only. When these paths are pairwise distinct it returns all of them, and
  \<open>N + N * M\<close> of them when every record has \<open>M\<close> entries.
\<close>

theorem roundtrip_record_stream:
  assumes "read_header dec data = Inr (config_size, version, root_path, pos)"
    and "drop pos data = encode_records recs"
    and "list_all valid_record recs"
  shows "parse_mlocate_db dec data
           = Inr (dedup_first (records_paths dec recs), root_path, version)
         \<and> (distinct (records_paths dec recs) \<longrightarrow>
              parse_mlocate_db dec data = Inr (records_paths dec recs, root_path, version)
              \<and> (list_all (\<lambda>r. length (snd (snd r)) = M) recs \<longrightarrow>
                   length (records_paths dec recs) = length recs + length recs * M))"
  using parse_encoded [OF assms(1) _ assms(3), of "[]"] assms(2)
  by (simp add: scan_directories_Nil dedup_first_distinct length_records_paths)

theorem roundtrip_record_stream_witness:
  "read_header ascii_decode flat_db = Inr (2, 0, lit ''/'', 18)
   \<and> drop 18 flat_db = encode_records flat_records
   \<and> list_all valid_record flat_records
   \<and> distinct (records_paths ascii_decode flat_records)
   \<and> list_all (\<lambda>r. length (snd (snd r)) = 1) flat_records
   \<and> parse_mlocate_db ascii_decode flat_db
       = Inr ([lit ''/'', lit ''/etc'', lit ''/home'', lit ''/home/alice''], lit ''/'', 0)
   \<and> length (records_paths ascii_decode flat_records) = 2 + 2 * 1"
proof -
  have h: "read_header ascii_decode flat_db = Inr (2, 0, lit ''/'', 18)"
    by (simp add: db_defs header_defs)
  have d: "drop 18 flat_db = encode_records flat_records"
    by (simp add: db_defs)
  have v: "list_all valid_record flat_records"
    by (simp add: record_defs)
  have ps: "records_paths ascii_decode flat_records
              = [lit ''/'', lit ''/etc'', lit ''/home'', lit ''/home/alice'']"
    by (simp add: path_defs flat_records_def)
  have ds: "distinct (records_paths ascii_decode flat_records)"
    by (simp add: ps lit_def)
  have m: "list_all (\<lambda>r. length (snd (snd r)) = 1) flat_records"
    by (simp add: flat_records_def)
  have n: "length flat_records = 2" by (simp add: flat_records_def)
  from roundtrip_record_stream [OF h d v, of 1] ds m have
    "parse_mlocate_db ascii_decode flat_db
       = Inr (records_paths ascii_decode flat_records, lit ''/'', 0)
     \<and> length (records_paths ascii_decode flat_records)
         = length flat_records + length flat_records * 1"
    by blast
  then have p: "parse_mlocate_db ascii_decode flat_db
       = Inr ([lit ''/'', lit ''/etc'', lit ''/home'', lit ''/home/alice''], lit ''/'', 0)"
    and l: "length (records_paths ascii_decode flat_records) = 2 + 2 * 1"
    by (simp_all only: ps n)
  from h d v ds m p l show ?thesis by (intro conjI)
qed

text \<open>
  Claim C1 as stated fails: two distinct directories \<open>/\<close> and \<open>/a\<close>, with one
  entry each (\<open>a\<close> and \<open>b\<close>), give three paths and not four, the entry \<open>a\<close> of
  \<open>/\<close> and the directory \<open>/a\<close> being the same path.
\<close>

theorem roundtrip_count_counterexample:
  "nested_records = [(zero16, blit ''/'', [(DIR_ENTRY, blit ''a'')]),
                     (zero16, blit ''/a'', [(FILE_ENTRY, blit ''b'')])]
   \<and> blit ''/'' \<noteq> blit ''/a''
   \<and> drop 18 nested_db = encode_records nested_records
   \<and> parse_mlocate_db ascii_decode nested_db
       = Inr ([lit ''/'', lit ''/a'', lit ''/a/b''], lit ''/'', 0)
   \<and> length [lit ''/'', lit ''/a'', lit ''/a/b''] \<noteq> 2 + 2 * 1"
proof -
  have h: "read_header ascii_decode nested_db = Inr (2, 0, lit ''/'', 18)"
    by (simp add: db_defs header_defs)
  have d: "drop 18 nested_db = encode_records nested_records @ []"
    by (simp add: db_defs)
  have v: "list_all valid_record nested_records"
    by (simp add: record_defs)
  have "dedup_first (records_paths ascii_decode nested_records)
          = [lit ''/'', lit ''/a'', lit ''/a/b'']"
    by (simp add: path_defs nested_records_def)
  with parse_encoded [OF h d v] have "parse_mlocate_db ascii_decode nested_db
       = Inr ([lit ''/'', lit ''/a'', lit ''/a/b''], lit ''/'', 0)"
    by (simp add: scan_directories_Nil)
  with d show ?thesis by (simp add: nested_records_def blit_def)
qed

text \<open>
  Claim C2. When \<open>parse_mlocate_db\<close> returns, no path is twice in the list returned,
  and the list is the sequence of paths that the byte stream encodes with each path kept
  at its first occurrence, in order.
\<close>

theorem no_duplicate_paths:
  assumes "parse_mlocate_db dec data = Inr (paths, root_path, version)"
  shows "distinct paths \<and> (\<exists>raw. raw_paths dec data = Inr raw \<and> paths = dedup_first raw)"
  using assms
  by (auto simp: parse_mlocate_db_raw raw_paths_def distinct_dedup_first split: sum.splits)

theorem no_duplicate_paths_witness:
  "parse_mlocate_db ascii_decode dup_db
     = Inr ([lit ''/'', lit ''/etc'', lit ''/etc/passwd''], lit ''/'', 0)
   \<and> distinct [lit ''/'', lit ''/etc'', lit ''/etc/passwd'']
   \<and> (\<exists>raw. raw_paths ascii_decode dup_db = Inr raw
         \<and> [lit ''/'', lit ''/etc'', lit ''/etc/passwd''] = dedup_first raw)"
proof -
  have h: "read_header ascii_decode dup_db = Inr (2, 0, lit ''/'', 18)"
    by (simp add: db_defs header_defs)
  have d: "drop 18 dup_db = encode_records dup_records @ []"
    by (simp add: db_defs)
  have v: "list_all valid_record dup_records"
    by (simp add: record_defs)
  have "dedup_first (records_paths ascii_decode dup_records)
          = [lit ''/'', lit ''/etc'', lit ''/etc/passwd'']"
    by (simp add: path_defs dup_records_def)
  with parse_encoded [OF h d v] have p: "parse_mlocate_db ascii_decode dup_db
     = Inr ([lit ''/'', lit ''/etc'', lit ''/etc/passwd''], lit ''/'', 0)"
    by (simp add: scan_directories_Nil)
  from p no_duplicate_paths [OF p] show ?thesis by simp
qed

text \<open>
  Claim C3. The first directory record is read at offset \<open>16 + config_size\<close>, whatever
  the root path is: two buffers with a readable header, the same configuration size and
  the same bytes from that offset on give the same list of paths (or the same error), and
  when these bytes are the encoding of a list of records, both buffers give the paths of
  exactly these records, in order, each at its first occurrence.
\<close>

theorem config_block_skip:
  assumes "read_header dec d1 = Inr (config_size, version1, root_path1, pos1)"
    and "read_header dec d2 = Inr (config_size, version2, root_path2, pos2)"
    and "drop (16 + config_size) d1 = drop (16 + config_size) d2"
  shows "pos1 = 16 + config_size \<and> pos2 = 16 + config_size
         \<and> map_sum id fst (parse_mlocate_db dec d1) = map_sum id fst (parse_mlocate_db dec d2)
         \<and> (list_all valid_record recs \<and> drop (16 + config_size) d1 = encode_records recs
              \<longrightarrow> parse_mlocate_db dec d1
                    = Inr (dedup_first (records_paths dec recs), root_path1, version1)
                  \<and> parse_mlocate_db dec d2
                    = Inr (dedup_first (records_paths dec recs), root_path2, version2))"
proof -
  from assms(1,2) have p: "pos1 = 16 + config_size" "pos2 = 16 + config_size"
    by (auto dest: read_header_pos)
  from assms(3) have "scan_directories dec d1 (16 + config_size)
                      = scan_directories dec d2 (16 + config_size)"
    by (rule scan_directories_suffix)
  with assms(1,2) p
  have eq: "map_sum id fst (parse_mlocate_db dec d1) = map_sum id fst (parse_mlocate_db dec d2)"
    by (simp add: parse_mlocate_db_raw split: sum.splits)
  have "parse_mlocate_db dec d1 = Inr (dedup_first (records_paths dec recs), root_path1, version1)
        \<and> parse_mlocate_db dec d2
            = Inr (dedup_first (records_paths dec recs), root_path2, version2)"
    if v: "list_all valid_record recs" and d: "drop (16 + config_size) d1 = encode_records recs"
  proof -
    from d p have d1: "drop pos1 d1 = encode_records recs @ []" by simp
    from d assms(3) p have d2: "drop pos2 d2 = encode_records recs @ []" by simp
    from parse_encoded [OF assms(1) d1 v] parse_encoded [OF assms(2) d2 v]
    show ?thesis by (simp add: scan_directories_Nil)
  qed
  with p eq show ?thesis by blast
qed

theorem config_block_skip_witness:
  "read_header ascii_decode short_root_db = Inr (8, 0, lit ''/'', 24)
   \<and> read_header ascii_decode long_root_db = Inr (8, 0, lit ''/home'', 24)
   \<and> drop (16 + 8) short_root_db = drop (16 + 8) long_root_db
   \<and> list_all valid_record flat_records
   \<and> drop (16 + 8) short_root_db = encode_records flat_records
   \<and> map_sum id fst (parse_mlocate_db ascii_decode short_root_db)
       = map_sum id fst (parse_mlocate_db ascii_decode long_root_db)
   \<and> parse_mlocate_db ascii_decode short_root_db
       = Inr ([lit ''/'', lit ''/etc'', lit ''/home'', lit ''/home/alice''], lit ''/'', 0)
   \<and> parse_mlocate_db ascii_decode long_root_db
       = Inr ([lit ''/'', lit ''/etc'', lit ''/home'', lit ''/home/alice''], lit ''/home'', 0)"
proof -
  have h1: "read_header ascii_decode short_root_db = Inr (8, 0, lit ''/'', 24)"
    by (simp add: db_defs header_defs)
  have h2: "read_header ascii_decode long_root_db = Inr (8, 0, lit ''/home'', 24)"
    by (simp add: db_defs header_defs)
  have d: "drop (16 + 8) short_root_db = drop (16 + 8) long_root_db"
    by (simp add: db_defs)
  have v: "list_all valid_record flat_records"
    by (simp add: record_defs)
  have e: "drop (16 + 8) short_root_db = encode_records flat_records"
    by (simp add: db_defs)
  have ps: "dedup_first (records_paths ascii_decode flat_records)
              = [lit ''/'', lit ''/etc'', lit ''/home'', lit ''/home/alice'']"
    by (simp add: path_defs flat_records_def)
  from config_block_skip [OF h1 h2 d, of flat_records] v e
  have eq: "map_sum id fst (parse_mlocate_db ascii_decode short_root_db)
          = map_sum id fst (parse_mlocate_db ascii_decode long_root_db)"
    and p1: "parse_mlocate_db ascii_decode short_root_db
          = Inr (dedup_first (records_paths ascii_decode flat_records), lit ''/'', 0)"
    and p2: "parse_mlocate_db ascii_decode long_root_db
          = Inr (dedup_first (records_paths ascii_decode flat_records), lit ''/home'', 0)"
    by blast+
  from p1 p2 have p1': "parse_mlocate_db ascii_decode short_root_db
       = Inr ([lit ''/'', lit ''/etc'', lit ''/home'', lit ''/home/alice''], lit ''/'', 0)"
    and p2': "parse_mlocate_db ascii_decode long_root_db
       = Inr ([lit ''/'', lit ''/etc'', lit ''/home'', lit ''/home/alice''], lit ''/home'', 0)"
    by (simp_all only: ps)
  from h1 h2 d v e eq p1' p2' show ?thesis by (intro conjI)
qed

text \<open>
  Claim C4, amended. The record stream is read from offset \<open>16 + config_size\<close>. When
  the size field counts the root path with its terminator and the configuration bytes
  after it, this is the offset \<open>16 + length root_path + 1 + length config\<close> right after
  them, and the paths returned are those of the records encoded there. When the size
  field counts the configuration bytes only, as in the layout of the external interface,
  the header leaves the cursor at \<open>16 + length config\<close>, which is
  \<open>length root_path + 1\<close> bytes before the first record.
\<close>

theorem record_stream_start:
  assumes "0 \<notin> set root_path"
    and "list_all valid_record recs"
    and "length root_path + 1 + length config < 2 ^ 32"
  shows "parse_mlocate_db dec
           (make_buffer (length root_path + 1 + length config) version require_vis
              (root_path @ [0] @ config) recs)
         = Inr (dedup_first (records_paths dec recs), dec root_path, unat version)
         \<and> drop (16 + length root_path + 1 + length config)
             (make_buffer (length root_path + 1 + length config) version require_vis
                (root_path @ [0] @ config) recs)
           = encode_records recs
         \<and> read_header dec (layout_buffer version require_vis root_path config recs)
           = Inr (length config, unat version, dec root_path, 16 + length config)"
proof -
  let ?n = "length root_path + 1 + length config"
  let ?data = "make_buffer ?n version require_vis (root_path @ [0] @ config) recs"
  have h: "read_header dec ?data = Inr (?n, unat version, dec root_path, 16 + ?n)"
    using read_header_make_buffer [OF assms(1) assms(3), of dec version require_vis config recs]
    by simp
  let ?pre = "MLOCATE_MAGIC @ pack_u32_be ?n @ [version, require_vis, 0, 0]
                @ root_path @ [0] @ config"
  have len: "length ?pre = 16 + ?n" by (simp add: MLOCATE_MAGIC_def pack_u32_be_def)
  have "drop (length ?pre) (?pre @ encode_records recs) = encode_records recs"
    by (rule append_eq_conv_conj [THEN iffD1, THEN conjunct2, symmetric]) (rule refl)
  then have d: "drop (16 + ?n) ?data = encode_records recs @ []"
    unfolding len by (simp add: make_buffer_def)
  from parse_encoded [OF h d assms(2)]
  have p: "parse_mlocate_db dec ?data
             = Inr (dedup_first (records_paths dec recs), dec root_path, unat version)"
    by (simp add: scan_directories_Nil)
  from assms(3) have c: "length config < 2 ^ 32" by simp
  have l: "read_header dec (layout_buffer version require_vis root_path config recs)
             = Inr (length config, unat version, dec root_path, 16 + length config)"
    using read_header_make_buffer [OF assms(1) c, of dec version require_vis config recs]
    by (simp add: layout_buffer_def)
  from d have d': "drop (16 + length root_path + 1 + length config) ?data = encode_records recs"
    by (simp add: add.assoc)
  from p d' l show ?thesis by (intro conjI)
qed

theorem record_stream_start_witness:
  "0 \<notin> set (blit ''/'')
   \<and> list_all valid_record flat_records
   \<and> length (blit ''/'') + 1 + length [7, 7, 7, 7, 7, 7 :: byte] < 2 ^ 32
   \<and> parse_mlocate_db ascii_decode
        (make_buffer 8 0 0 (blit ''/'' @ [0] @ [7, 7, 7, 7, 7, 7]) flat_records)
       = Inr ([lit ''/'', lit ''/etc'', lit ''/home'', lit ''/home/alice''], lit ''/'', 0)
   \<and> read_header ascii_decode (layout_buffer 0 0 (blit ''/'') [7, 7, 7, 7, 7, 7] flat_records)
       = Inr (6, 0, lit ''/'', 22)"
proof -
  have r: "0 \<notin> set (blit ''/'')" by (simp add: blit_def)
  have v: "list_all valid_record flat_records" by (simp add: record_defs)
  have l: "length (blit ''/'') + 1 + length [7, 7, 7, 7, 7, 7 :: byte] < 2 ^ 32"
    by (simp add: blit_def)
  have e8: "length (blit ''/'') + 1 + length [7, 7, 7, 7, 7, 7 :: byte] = 8"
    by (simp add: blit_def)
  have e6: "length [7, 7, 7, 7, 7, 7 :: byte] = 6" by simp
  have ps: "dedup_first (records_paths ascii_decode flat_records)
              = [lit ''/'', lit ''/etc'', lit ''/home'', lit ''/home/alice'']"
    by (simp add: path_defs flat_records_def)
  have a: "ascii_decode (blit ''/'') = lit ''/''" "unat (0 :: byte) = 0" "16 + 6 = (22 :: nat)"
    by (simp_all add: ascii_decode_def blit_def lit_def)
  note t = record_stream_start [OF r v l, of ascii_decode 0 0, unfolded e8, unfolded e6]
  from t have "parse_mlocate_db ascii_decode
        (make_buffer 8 0 0 (blit ''/'' @ [0] @ [7, 7, 7, 7, 7, 7]) flat_records)
       = Inr (dedup_first (records_paths ascii_decode flat_records),
              ascii_decode (blit ''/''), unat (0 :: byte))"
    by (rule conjunct1)
  then have p: "parse_mlocate_db ascii_decode
        (make_buffer 8 0 0 (blit ''/'' @ [0] @ [7, 7, 7, 7, 7, 7]) flat_records)
       = Inr ([lit ''/'', lit ''/etc'', lit ''/home'', lit ''/home/alice''], lit ''/'', 0)"
    by (simp only: ps a)
  from t have "read_header ascii_decode
        (layout_buffer 0 0 (blit ''/'') [7, 7, 7, 7, 7, 7] flat_records)
       = Inr (6, unat (0 :: byte), ascii_decode (blit ''/''), 16 + 6)"
    by (rule conjunct2 [THEN conjunct2])
  then have h: "read_header ascii_decode
        (layout_buffer 0 0 (blit ''/'') [7, 7, 7, 7, 7, 7] flat_records)
       = Inr (6, 0, lit ''/'', 22)"
    by (simp only: a)
  from r v l p h show ?thesis by (intro conjI)
qed

text \<open>
  Claim C4 as stated fails: a buffer laid out as the external interface says (root path
  \<open>/\<close>, empty configuration block, one record \<open>/\<close> with the entry \<open>etc\<close>) has its
  first record at offset \<open>16 + 1 + 1 + 0\<close>; the loop starts at offset 16, inside the
  root path, and the result is the empty path, \<open>//\<close> and \<open>/etc\<close> instead of \<open>/\<close>
  and \<open>/etc\<close>.
\<close>

theorem record_stream_offset_counterexample:
  "spec_layout_db = layout_buffer 0 0 (blit ''/'') [] root_records
   \<and> drop (16 + length (blit ''/'') + 1 + 0) spec_layout_db = encode_records root_records
   \<and> records_paths ascii_decode root_records = [lit ''/'', lit ''/etc'']
   \<and> parse_mlocate_db ascii_decode spec_layout_db
       = Inr ([[], lit ''//'', lit ''/etc''], lit ''/'', 0)"
proof -
  have h: "read_header ascii_decode spec_layout_db = Inr (0, 0, lit ''/'', 16)"
    by (simp add: db_defs header_defs)
  have d: "drop 16 spec_layout_db = encode_records misread_records @ []"
    by (simp add: db_defs record_defs encode_record_def encode_entries_def encode_entry_def
          root_records_def misread_records_def)
  have v: "list_all valid_record misread_records"
    by (simp add: record_defs)
  have "dedup_first (records_paths ascii_decode misread_records)
          = [[], lit ''//'', lit ''/etc'']"
    by (simp add: path_defs misread_records_def)
  with parse_encoded [OF h d v] have p: "parse_mlocate_db ascii_decode spec_layout_db
       = Inr ([[], lit ''//'', lit ''/etc''], lit ''/'', 0)"
    by (simp add: scan_directories_Nil)
  have d': "drop (16 + length (blit ''/'') + 1 + 0) spec_layout_db = encode_records root_records"
    by (simp add: db_defs)
  have ps: "records_paths ascii_decode root_records = [lit ''/'', lit ''/etc'']"
    by (simp add: path_defs root_records_def)
  from p d' ps show ?thesis by (simp add: spec_layout_db_def)
qed

text \<open>
  Claim C5, amended. When a string has no zero byte after it up to the end of the data
  (the root path, the path of a directory record, or the name of an entry, the records
  before it being complete), \<open>parse_mlocate_db\<close> fails with ValueError and returns
  nothing: neither a shortened path nor the paths read so far.
\<close>

theorem truncated_string_fails:
  "(take 8 data = MLOCATE_MAGIC \<and> 14 \<le> length data \<and> 0 \<notin> set (drop 16 data)
      \<longrightarrow> parse_mlocate_db dec data = Inl ValueError)
   \<and> (read_header dec data = Inr (config_size, version, root_path, pos)
        \<and> list_all valid_record recs \<and> length header = 16 \<and> 0 \<notin> set s
        \<and> drop pos data = encode_records recs @ header @ s
      \<longrightarrow> parse_mlocate_db dec data = Inl ValueError)
   \<and> (read_header dec data = Inr (config_size, version, root_path, pos)
        \<and> list_all valid_record recs \<and> length header = 16 \<and> 0 \<notin> set path
        \<and> list_all valid_entry es \<and> entry_type \<noteq> END_ENTRY \<and> 0 \<notin> set s
        \<and> drop pos data
            = encode_records recs @ header @ path @ 0 # encode_entries es @ entry_type # s
      \<longrightarrow> parse_mlocate_db dec data = Inl ValueError)"
proof (intro conjI impI)
  assume "take 8 data = MLOCATE_MAGIC \<and> 14 \<le> length data \<and> 0 \<notin> set (drop 16 data)"
  then show "parse_mlocate_db dec data = Inl ValueError"
    by (simp add: parse_mlocate_db_def read_header_truncated_root)
next
  assume a: "read_header dec data = Inr (config_size, version, root_path, pos)
        \<and> list_all valid_record recs \<and> length header = 16 \<and> 0 \<notin> set s
        \<and> drop pos data = encode_records recs @ header @ s"
  then have "scan_directories dec (header @ s) 0 = Inl ValueError"
    by (intro scan_directories_truncated_path) simp_all
  with a parse_encoded [of dec data config_size version root_path pos recs "header @ s"]
  show "parse_mlocate_db dec data = Inl ValueError" by simp
next
  assume a: "read_header dec data = Inr (config_size, version, root_path, pos)
        \<and> list_all valid_record recs \<and> length header = 16 \<and> 0 \<notin> set path
        \<and> list_all valid_entry es \<and> entry_type \<noteq> END_ENTRY \<and> 0 \<notin> set s
        \<and> drop pos data
            = encode_records recs @ header @ path @ 0 # encode_entries es @ entry_type # s"
  then have "scan_directories dec (header @ path @ 0 # encode_entries es @ entry_type # s) 0
               = Inl ValueError"
    by (intro scan_directories_truncated_name) simp_all
  with a parse_encoded [of dec data config_size version root_path pos recs
      "header @ path @ 0 # encode_entries es @ entry_type # s"]
  show "parse_mlocate_db dec data = Inl ValueError" by simp
qed

theorem truncated_string_fails_witness:
  "take 8 trunc_root_db = MLOCATE_MAGIC \<and> 14 \<le> length trunc_root_db
   \<and> 0 \<notin> set (drop 16 trunc_root_db)
   \<and> parse_mlocate_db ascii_decode trunc_root_db = Inl ValueError
   \<and> read_header ascii_decode trunc_path_db = Inr (2, 0, lit ''/'', 18)
   \<and> drop 18 trunc_path_db = encode_records [] @ zero16 @ blit ''/ho''
   \<and> parse_mlocate_db ascii_decode trunc_path_db = Inl ValueError
   \<and> read_header ascii_decode trunc_name_db = Inr (2, 0, lit ''/'', 18)
   \<and> drop 18 trunc_name_db
       = encode_records [] @ zero16 @ blit ''/'' @ 0 # encode_entries [] @ FILE_ENTRY # blit ''et''
   \<and> parse_mlocate_db ascii_decode trunc_name_db = Inl ValueError"
proof -
  have r: "take 8 trunc_root_db = MLOCATE_MAGIC \<and> 14 \<le> length trunc_root_db
             \<and> 0 \<notin> set (drop 16 trunc_root_db)"
    by (simp add: db_defs)
  have h1: "read_header ascii_decode trunc_path_db = Inr (2, 0, lit ''/'', 18)"
    by (simp add: db_defs header_defs)
  have d1: "drop 18 trunc_path_db = encode_records [] @ zero16 @ blit ''/ho''"
    by (simp add: db_defs)
  have h2: "read_header ascii_decode trunc_name_db = Inr (2, 0, lit ''/'', 18)"
    by (simp add: db_defs header_defs)
  have d2: "drop 18 trunc_name_db
       = encode_records [] @ zero16 @ blit ''/'' @ 0 # encode_entries [] @ FILE_ENTRY # blit ''et''"
    by (simp add: db_defs encode_entries_def)
  have s: "length zero16 = 16" "0 \<notin> set (blit ''/ho'')" "0 \<notin> set (blit ''/'')"
    "0 \<notin> set (blit ''et'')" "FILE_ENTRY \<noteq> END_ENTRY"
    by (simp_all add: zero16_def blit_def FILE_ENTRY_def END_ENTRY_def)
  from r h1 d1 h2 d2 s
    truncated_string_fails [where data = trunc_root_db and dec = ascii_decode]
    truncated_string_fails [where data = trunc_path_db and dec = ascii_decode
      and config_size = 2 and version = 0 and root_path = "lit ''/''" and pos = 18
      and recs = "[]" and header = zero16 and s = "blit ''/ho''"]
    truncated_string_fails [where data = trunc_name_db and dec = ascii_decode
      and config_size = 2 and version = 0 and root_path = "lit ''/''" and pos = 18
      and recs = "[]" and header = zero16 and path = "blit ''/''" and es = "[]"
      and entry_type = FILE_ENTRY and s = "blit ''et''"]
  show ?thesis by simp
qed

text \<open>
  Claim C5 as stated fails in that the error names no offset: a directory path cut
  short from offset 34 on and an entry name cut short from offset 37 on give the same
  error value.
\<close>

theorem error_offset_counterexample:
  "drop 34 trunc_path_db = blit ''/ho''
   \<and> drop 37 trunc_name_db = blit ''et''
   \<and> parse_mlocate_db ascii_decode trunc_path_db = Inl ValueError
   \<and> parse_mlocate_db ascii_decode trunc_name_db = Inl ValueError"
proof -
  have h1: "read_header ascii_decode trunc_path_db = Inr (2, 0, lit ''/'', 18)"
    by (simp add: db_defs header_defs)
  have d1: "drop 18 trunc_path_db = encode_records [] @ zero16 @ blit ''/ho''"
    by (simp add: db_defs)
  have h2: "read_header ascii_decode trunc_name_db = Inr (2, 0, lit ''/'', 18)"
    by (simp add: db_defs header_defs)
  have d2: "drop 18 trunc_name_db
       = encode_records [] @ zero16 @ blit ''/'' @ 0 # encode_entries [] @ FILE_ENTRY # blit ''et''"
    by (simp add: db_defs encode_entries_def)
  have s: "length zero16 = 16" "0 \<notin> set (blit ''/ho'')" "0 \<notin> set (blit ''/'')"
    "0 \<notin> set (blit ''et'')" "FILE_ENTRY \<noteq> END_ENTRY"
    by (simp_all add: zero16_def blit_def FILE_ENTRY_def END_ENTRY_def)
  have p1: "parse_mlocate_db ascii_decode trunc_path_db = Inl ValueError"
    using parse_encoded [OF h1 d1] scan_directories_truncated_path [OF s(1,2), of ascii_decode]
    by simp
  have p2: "parse_mlocate_db ascii_decode trunc_name_db = Inl ValueError"
    using parse_encoded [OF h2 d2]
      scan_directories_truncated_name [OF s(1) s(3) _ s(5) s(4), of "[]" ascii_decode]
    by simp
  have o: "drop 34 trunc_path_db = blit ''/ho''" "drop 37 trunc_name_db = blit ''et''"
    by (simp_all add: db_defs)
  from p1 p2 o show ?thesis by simp
qed

text \<open>
  Claim C9. When the record stream is well formed, every entry \<open>name\<close> of every
  record with directory path \<open>path\<close> gives a path of the result: \<open>/\<close> followed by
  the name when the decoded directory path is \<open>/\<close>, and otherwise the directory path,
  \<open>/\<close> and the name.
\<close>

theorem child_path_join:
  assumes "read_header dec data = Inr (config_size, version, root_path, pos)"
    and "drop pos data = encode_records recs"
    and "list_all valid_record recs"
    and "(header, path, es) \<in> set recs"
    and "(entry_type, name) \<in> set es"
  shows "\<exists>paths. parse_mlocate_db dec data = Inr (paths, root_path, version)
           \<and> (if dec path = lit ''/'' then lit ''/'' @ dec name
               else dec path @ lit ''/'' @ dec name) \<in> set paths"
proof -
  from assms(5) have "full_path (dec path) (dec name) \<in> set (entry_paths dec (dec path) es)"
    by (force simp: entry_paths_def)
  with assms(4) have "full_path (dec path) (dec name) \<in> set (records_paths dec recs)"
    by (force simp: records_paths_def record_paths_def)
  with parse_encoded [OF assms(1) _ assms(3), of "[]"] assms(2) show ?thesis
    by (simp add: scan_directories_Nil set_dedup_first full_path_def)
qed

theorem child_path_join_witness:
  "read_header ascii_decode root_db = Inr (2, 0, lit ''/'', 18)
   \<and> drop 18 root_db = encode_records root_records
   \<and> list_all valid_record root_records
   \<and> (zero16, blit ''/'', [(FILE_ENTRY, blit ''etc'')]) \<in> set root_records
   \<and> ascii_decode (blit ''/'') = lit ''/''
   \<and> (\<exists>paths. parse_mlocate_db ascii_decode root_db = Inr (paths, lit ''/'', 0)
         \<and> lit ''/etc'' \<in> set paths)"
proof -
  have h: "read_header ascii_decode root_db = Inr (2, 0, lit ''/'', 18)"
    by (simp add: db_defs header_defs)
  have d: "drop 18 root_db = encode_records root_records"
    by (simp add: db_defs)
  have v: "list_all valid_record root_records"
    by (simp add: record_defs)
  have r: "(zero16, blit ''/'', [(FILE_ENTRY, blit ''etc'')]) \<in> set root_records"
    by (simp add: root_records_def)
  have e: "(FILE_ENTRY, blit ''etc'') \<in> set [(FILE_ENTRY, blit ''etc'')]" by simp
  have a: "ascii_decode (blit ''/'') = lit ''/''"
    "lit ''/'' @ ascii_decode (blit ''etc'') = lit ''/etc''"
    by (simp_all add: ascii_decode_def blit_def lit_def)
  from child_path_join [OF h d v r e] h d v r a show ?thesis by simp
qed

end
